theory Spec2Isabelle
  imports Main "HOL-Library.Word"
begin

section \<open>The thread pool of ThreadPool.h / ThreadPool.cpp\<close>

text \<open>
  Every access of the pool's shared members happens while \<open>queueMutex_\<close> is held, so each
  member function is modelled as the state change of its critical section.  A condition
  variable wait \<open>cv.wait(lock, pred)\<close> returns only in a state in which \<open>pred\<close> holds; a
  call that cannot proceed in the given state has the value \<open>None\<close> (the caller is still
  blocked).  Time is not modelled: the expiry of the 100 ms grace timeout of \<open>Enqueue\<close> is
  an input of the model.
\<close>

subsection \<open>Tasks and the shared state of a packaged task\<close>

text \<open>
  What a callable does when it is invoked: it returns a value, returns nothing, or throws.
\<close>

datatype outcome = Value int | Void | Failure string

text \<open>
  \<open>TryEnqueue\<close> wraps the bound callable in a \<open>std::packaged_task<void()>\<close>, which drops
  the value the callable returns; \<open>Enqueue\<close> uses \<open>std::packaged_task<return_type()>\<close>,
  which keeps it.
\<close>

fun discard_value :: "outcome \<Rightarrow> outcome" where
  "discard_value (Value v) = Void"
| "discard_value Void = Void"
| "discard_value (Failure m) = Failure m"

text \<open>
  The shared state that \<open>std::packaged_task\<close> owns: the stored result (none before the task
  has run) and whether \<open>get_future()\<close> has been called on it.
\<close>

record shared_state =
  result :: "outcome option"
  has_future :: bool

text \<open>
  A queue element is the lambda \<open>[task]() { (*task)(); }\<close>: it refers to one packaged task
  (\<open>chan\<close>, the index of its shared state) which wraps the bound callable (\<open>body\<close>, what
  the packaged task gets from invoking it).
\<close>

record task =
  chan :: nat
  body :: outcome

subsection \<open>The members of class ThreadPool\<close>

text \<open>
  \<open>size_t\<close> is taken as a 64-bit unsigned integer.  The three condition variables and the
  mutex carry no data; the worker threads are part of the system state further below.
\<close>

record ThreadPool =
  tasks :: "task list"
  stop :: bool
  activeTasks :: "64 word"
  maxQueueSize :: "64 word"

text \<open>
  The exceptions: the \<open>std::runtime_error\<close> that \<open>Enqueue\<close> throws, \<open>std::bad_alloc\<close> of an
  allocation, and whatever a constructor of the callable or of its arguments throws when
  \<open>std::bind\<close> copies them.
\<close>

datatype error = runtime_error string | bad_alloc | copy_error string

text \<open>The constructor's member initialisers.\<close>

definition new_ThreadPool :: "64 word \<Rightarrow> ThreadPool" where
  "new_ThreadPool maxQueueSize0 =
     \<lparr>tasks = [], stop = False, activeTasks = 0, maxQueueSize = maxQueueSize0\<rparr>"

definition SignalThreadsToStop :: "ThreadPool \<Rightarrow> ThreadPool" where
  "SignalThreadsToStop p = p\<lparr>stop := True\<rparr>"

text \<open>\<open>tasks_.emplace(...)\<close>: \<open>std::queue\<close> inserts at the back.\<close>

definition emplace :: "task \<Rightarrow> ThreadPool \<Rightarrow> ThreadPool" where
  "emplace t p = p\<lparr>tasks := tasks p @ [t]\<rparr>"

text \<open>\<open>tasks_.size() >= maxQueueSize_\<close>\<close>

definition queue_full :: "ThreadPool \<Rightarrow> bool" where
  "queue_full p = (unat (maxQueueSize p) \<le> length (tasks p))"

text \<open>
  \<open>GetNextTask\<close>: \<open>None\<close> while the wait on \<open>condition_\<close> cannot return; otherwise the
  returned function (\<open>None\<close> for the empty function) and the new state.
\<close>

definition GetNextTask :: "ThreadPool \<Rightarrow> (task option \<times> ThreadPool) option" where
  "GetNextTask p =
     (if \<not> (stop p \<or> tasks p \<noteq> []) then None
      else if stop p \<and> tasks p = [] then Some (None, p)
      else Some (Some (hd (tasks p)),
                 p\<lparr>tasks := tl (tasks p), activeTasks := activeTasks p + 1\<rparr>))"

text \<open>
  \<open>NotifyTaskCompletion\<close>: the new state, and whether \<open>finished_.notify_all()\<close> was called.
\<close>

definition NotifyTaskCompletion :: "ThreadPool \<Rightarrow> bool \<times> ThreadPool" where
  "NotifyTaskCompletion p =
     (let p' = p\<lparr>activeTasks := activeTasks p - 1\<rparr>
      in (0 = activeTasks p' \<and> tasks p' = [], p'))"

text \<open>The predicate of the wait in \<open>WaitForAllTasks\<close>.\<close>

definition all_done :: "ThreadPool \<Rightarrow> bool" where
  "all_done p = (tasks p = [] \<and> 0 = activeTasks p)"

text \<open>
  \<open>WaitForAllTasks\<close>: \<open>None\<close> while the wait on \<open>finished_\<close> cannot return; the function
  changes nothing.
\<close>

definition WaitForAllTasks :: "ThreadPool \<Rightarrow> ThreadPool option" where
  "WaitForAllTasks p = (if all_done p then Some p else None)"

text \<open>
  \<open>Enqueue\<close>, from taking the lock up to the first of: the throw, the call of
  \<open>queueNotFull_.wait_for\<close> (whose predicate is false at that moment, since \<open>stop_\<close> was just
  read false and the queue just found full, so the lock is released), or the push.
\<close>

datatype enqueue_status = Queued nat | Waits

definition Enqueue :: "task \<Rightarrow> ThreadPool \<Rightarrow> (error + enqueue_status) \<times> ThreadPool" where
  "Enqueue t p =
     (if stop p then (Inl (runtime_error ''enqueue on stopped ThreadPool''), p)
      else if queue_full p then (Inr Waits, p)
      else (Inr (Queued (chan t)), emplace t p))"

text \<open>The predicate of \<open>queueNotFull_.wait_for\<close>.\<close>

definition queueNotFull_pred :: "ThreadPool \<Rightarrow> bool" where
  "queueNotFull_pred p = (stop p \<or> length (tasks p) < unat (maxQueueSize p))"

text \<open>
  The rest of \<open>Enqueue\<close> after \<open>wait_for\<close>, in the state the pool has when the caller holds
  the lock again.  \<open>wait_for\<close> returns when its predicate holds or when the timeout has
  expired (\<open>timed_out\<close>); its result is ignored and the task is pushed.  The value is the
  future's channel and the new state, or \<open>None\<close> while \<open>wait_for\<close> cannot return.
\<close>

definition Enqueue_after_wait :: "bool \<Rightarrow> task \<Rightarrow> ThreadPool \<Rightarrow> (nat \<times> ThreadPool) option" where
  "Enqueue_after_wait timed_out t p =
     (if queueNotFull_pred p \<or> timed_out then Some (chan t, emplace t p) else None)"

text \<open>
  \<open>TryEnqueue\<close>.  After the two tests the function makes the task (\<open>std::bind\<close> copies the
  callable and its arguments, \<open>std::make_shared\<close> allocates the packaged task) and inserts it
  (\<open>tasks_.emplace\<close> allocates); nothing catches what these throw.  \<open>made\<close> is what they
  yield: the task, or the exception, which then leaves \<open>TryEnqueue\<close> with the queue as it was
  (\<open>emplace\<close> on a \<open>std::queue\<close> has no effect when it throws).  The value is the exception or
  the returned boolean, and the new state.
\<close>

definition TryEnqueue :: "error + task \<Rightarrow> ThreadPool \<Rightarrow> (error + bool) \<times> ThreadPool" where
  "TryEnqueue made p =
     (if stop p then (Inr False, p)
      else if queue_full p then (Inr False, p)
      else (case made of
              Inl e \<Rightarrow> (Inl e, p)
            | Inr t \<Rightarrow> (Inr True, emplace t p)))"

subsection \<open>Running a task\<close>

text \<open>
  The worker's call \<open>task()\<close> runs \<open>(*task)()\<close>.  \<open>std::packaged_task::operator()\<close> invokes
  the callable and stores what it returned, or the exception it threw, in the shared state;
  nothing propagates to the caller.  Invoking a packaged task whose shared state already
  holds a result throws \<open>std::future_error\<close> instead (the value \<open>None\<close> here).
\<close>

definition invoke :: "task \<Rightarrow> shared_state list \<Rightarrow> shared_state list option" where
  "invoke t sh =
     (if chan t < length sh \<and> result (sh ! chan t) = None
      then Some (sh[chan t := (sh ! chan t)\<lparr>result := Some (body t)\<rparr>])
      else None)"

subsection \<open>The pool with its threads\<close>

text \<open>
  The worker lambda of the constructor is a loop over three steps: \<open>GetNextTask()\<close>,
  \<open>task()\<close> (outside the lock) and \<open>NotifyTaskCompletion()\<close>.  A worker is \<open>Waiting\<close> in
  front of or inside \<open>GetNextTask\<close>, \<open>Executing\<close> once it holds a task, \<open>Completing\<close> once
  the task has returned, \<open>Terminated\<close> after it received the empty function, and \<open>Crashed\<close>
  if an exception left \<open>task()\<close>.
\<close>

datatype worker = Waiting | Executing task | Completing | Terminated | Crashed

text \<open>
  A thread inside \<open>finished_.wait(lock, pred)\<close>: \<open>Asleep\<close> in the condition variable after
  it found the predicate false, \<open>Awake\<close> once it was notified (or woke up spuriously) and has
  to test the predicate again, \<open>Returned\<close> when \<open>WaitForAllTasks\<close> has returned.
\<close>

datatype waiter = Asleep | Awake | Returned

text \<open>
  \<open>producers\<close> are the callers of \<open>Enqueue\<close> that are inside \<open>queueNotFull_.wait_for\<close>,
  each with the task it is going to push (\<open>None\<close> once it has returned).  \<open>shared\<close> holds the
  shared states of all packaged tasks made so far; \<open>std::make_shared\<close> appends a new one.
\<close>

record system =
  pool :: ThreadPool
  workers :: "worker list"
  producers :: "task option list"
  waiters :: "waiter list"
  shared :: "shared_state list"

text \<open>\<open>ThreadPool(threads, maxQueueSize)\<close>: \<open>threads\<close> workers, all about to call \<open>GetNextTask\<close>.\<close>

definition new_system :: "nat \<Rightarrow> 64 word \<Rightarrow> system" where
  "new_system threads maxQueueSize0 =
     \<lparr>pool = new_ThreadPool maxQueueSize0, workers = replicate threads Waiting,
      producers = [], waiters = [], shared = []\<rparr>"

text \<open>
  The atomic steps of the threads.  \<open>Call_Enqueue f\<close> and \<open>Call_TryEnqueue f\<close> are calls with
  a callable whose behaviour is \<open>f\<close>; \<open>Call_TryEnqueue_throwing e\<close> is a call of
  \<open>TryEnqueue\<close> in which making or inserting the task would throw \<open>e\<close>;
  \<open>Resume_Enqueue i timed_out\<close> lets the \<open>i\<close>-th waiting producer take the lock again;
  \<open>Waiter_Wake\<close> is a spurious wake-up.
\<close>

datatype action =
    Call_Enqueue outcome
  | Resume_Enqueue nat bool
  | Call_TryEnqueue outcome
  | Call_TryEnqueue_throwing error
  | Worker_GetNextTask nat
  | Worker_Run nat
  | Worker_NotifyTaskCompletion nat
  | Destructor_SignalThreadsToStop
  | Call_WaitForAllTasks
  | Waiter_Wake nat
  | Waiter_Recheck nat

text \<open>
  What a step returns to the thread that made it.  Only \<open>Future\<close> carries a handle to a
  shared state.
\<close>

datatype event =
    Threw error
  | Future task
  | Deferred
  | Accepted task
  | Rejected
  | Dequeued task
  | Sentinel
  | Ran task
  | Aborted
  | Completed
  | StopSignalled
  | BarrierReturned
  | BarrierSleeps
  | Woken

definition new_task :: "outcome \<Rightarrow> system \<Rightarrow> task" where
  "new_task f s = \<lparr>chan = length (shared s), body = f\<rparr>"

definition wake :: "waiter \<Rightarrow> waiter" where
  "wake w = (case w of Asleep \<Rightarrow> Awake | _ \<Rightarrow> w)"

fun step :: "action \<Rightarrow> system \<Rightarrow> (event \<times> system) option" where
  "step (Call_Enqueue f) s =
     (let t = new_task f s in
      case Enqueue t (pool s) of
        (Inl e, p') \<Rightarrow> Some (Threw e, s\<lparr>pool := p'\<rparr>)
      | (Inr Waits, p') \<Rightarrow>
          Some (Deferred, s\<lparr>pool := p', producers := producers s @ [Some t],
                  shared := shared s @ [\<lparr>result = None, has_future = True\<rparr>]\<rparr>)
      | (Inr (Queued c), p') \<Rightarrow>
          Some (Future t, s\<lparr>pool := p',
                  shared := shared s @ [\<lparr>result = None, has_future = True\<rparr>]\<rparr>))"
| "step (Resume_Enqueue i timed_out) s =
     (if i < length (producers s) then
        (case producers s ! i of
           None \<Rightarrow> None
         | Some t \<Rightarrow>
             (case Enqueue_after_wait timed_out t (pool s) of
                None \<Rightarrow> None
              | Some (c, p') \<Rightarrow>
                  Some (Future t, s\<lparr>pool := p', producers := (producers s)[i := None]\<rparr>)))
      else None)"
| "step (Call_TryEnqueue f) s =
     (let t = new_task (discard_value f) s in
      case TryEnqueue (Inr t) (pool s) of
        (Inl e, p') \<Rightarrow> Some (Threw e, s\<lparr>pool := p'\<rparr>)
      | (Inr False, p') \<Rightarrow> Some (Rejected, s\<lparr>pool := p'\<rparr>)
      | (Inr True, p') \<Rightarrow>
          Some (Accepted t, s\<lparr>pool := p',
                  shared := shared s @ [\<lparr>result = None, has_future = False\<rparr>]\<rparr>))"
| "step (Call_TryEnqueue_throwing e) s =
     (case TryEnqueue (Inl e) (pool s) of
        (Inl e', p') \<Rightarrow> Some (Threw e', s\<lparr>pool := p'\<rparr>)
      | (Inr b, p') \<Rightarrow> Some (Rejected, s\<lparr>pool := p'\<rparr>))"
| "step (Worker_GetNextTask w) s =
     (if w < length (workers s) \<and> workers s ! w = Waiting then
        (case GetNextTask (pool s) of
           None \<Rightarrow> None
         | Some (None, p') \<Rightarrow>
             Some (Sentinel, s\<lparr>pool := p', workers := (workers s)[w := Terminated]\<rparr>)
         | Some (Some t, p') \<Rightarrow>
             Some (Dequeued t, s\<lparr>pool := p', workers := (workers s)[w := Executing t]\<rparr>))
      else None)"
| "step (Worker_Run w) s =
     (if w < length (workers s) then
        (case workers s ! w of
           Executing t \<Rightarrow>
             (case invoke t (shared s) of
                None \<Rightarrow> Some (Aborted, s\<lparr>workers := (workers s)[w := Crashed]\<rparr>)
              | Some sh' \<Rightarrow>
                  Some (Ran t, s\<lparr>workers := (workers s)[w := Completing], shared := sh'\<rparr>))
         | _ \<Rightarrow> None)
      else None)"
| "step (Worker_NotifyTaskCompletion w) s =
     (if w < length (workers s) \<and> workers s ! w = Completing then
        (case NotifyTaskCompletion (pool s) of
           (notified, p') \<Rightarrow>
             Some (Completed,
                   s\<lparr>pool := p', workers := (workers s)[w := Waiting],
                     waiters := (if notified then map wake (waiters s) else waiters s)\<rparr>))
      else None)"
| "step Destructor_SignalThreadsToStop s =
     Some (StopSignalled, s\<lparr>pool := SignalThreadsToStop (pool s)\<rparr>)"
| "step Call_WaitForAllTasks s =
     (case WaitForAllTasks (pool s) of
        Some p' \<Rightarrow> Some (BarrierReturned, s\<lparr>pool := p'\<rparr>)
      | None \<Rightarrow> Some (BarrierSleeps, s\<lparr>waiters := waiters s @ [Asleep]\<rparr>))"
| "step (Waiter_Wake i) s =
     (if i < length (waiters s) \<and> waiters s ! i = Asleep
      then Some (Woken, s\<lparr>waiters := (waiters s)[i := Awake]\<rparr>)
      else None)"
| "step (Waiter_Recheck i) s =
     (if i < length (waiters s) \<and> waiters s ! i = Awake then
        (case WaitForAllTasks (pool s) of
           Some p' \<Rightarrow> Some (BarrierReturned, s\<lparr>pool := p', waiters := (waiters s)[i := Returned]\<rparr>)
         | None \<Rightarrow> Some (BarrierSleeps, s\<lparr>waiters := (waiters s)[i := Asleep]\<rparr>))
      else None)"

text \<open>
  A schedule is a list of actions; it runs while every action is enabled and yields the
  events in order and the final state.
\<close>

fun run :: "action list \<Rightarrow> system \<Rightarrow> (event list \<times> system) option" where
  "run [] s = Some ([], s)"
| "run (a # as) s =
     (case step a s of
        None \<Rightarrow> None
      | Some (e, s') \<Rightarrow>
          (case run as s' of None \<Rightarrow> None | Some (es, s'') \<Rightarrow> Some (e # es, s'')))"

text \<open>The tasks a list of events pushed onto the queue, and those it popped, in order.\<close>

fun pushed :: "event list \<Rightarrow> task list" where
  "pushed [] = []"
| "pushed (Future t # es) = t # pushed es"
| "pushed (Accepted t # es) = t # pushed es"
| "pushed (e # es) = pushed es"

fun popped :: "event list \<Rightarrow> task list" where
  "popped [] = []"
| "popped (Dequeued t # es) = t # popped es"
| "popped (e # es) = popped es"

fun executed :: "event list \<Rightarrow> task list" where
  "executed [] = []"
| "executed (Ran t # es) = t # executed es"
| "executed (e # es) = executed es"

text \<open>A worker that has taken a task out of the queue and not yet reported its completion.\<close>

fun busy :: "worker \<Rightarrow> bool" where
  "busy (Executing t) = True"
| "busy Completing = True"
| "busy Crashed = True"
| "busy Waiting = False"
| "busy Terminated = False"

subsection \<open>Invariants\<close>

text \<open>The actions that push, or are about to push, a task.\<close>

fun is_submission :: "action \<Rightarrow> bool" where
  "is_submission (Call_Enqueue f) = True"
| "is_submission (Resume_Enqueue i timed_out) = True"
| "is_submission (Call_TryEnqueue f) = True"
| "is_submission a = False"

text \<open>
  \<open>activeTasks_\<close> counts the busy workers (and there are fewer than \<open>2 ^ 64\<close> threads, so
  the counter does not wrap), and no thread sleeps in \<open>finished_\<close> while the predicate of
  \<open>WaitForAllTasks\<close> holds.
\<close>

definition consistent :: "system \<Rightarrow> bool" where
  "consistent s =
     (length (workers s) < 2 ^ 64
      \<and> unat (activeTasks (pool s)) = length (filter busy (workers s))
      \<and> (all_done (pool s) \<longrightarrow> Asleep \<notin> set (waiters s)))"

text \<open>
  The number of places that hold a task of the packaged task \<open>c\<close>: queue entries, workers
  executing it, producers about to push it.  A packaged task is held at most once, and only
  while its shared state exists and has no result.
\<close>

fun holds :: "nat \<Rightarrow> worker \<Rightarrow> bool" where
  "holds c (Executing t) = (chan t = c)"
| "holds c w = False"

fun awaits :: "nat \<Rightarrow> task option \<Rightarrow> bool" where
  "awaits c (Some t) = (chan t = c)"
| "awaits c None = False"

definition holders :: "nat \<Rightarrow> system \<Rightarrow> nat" where
  "holders c s =
     length (filter (\<lambda>t. chan t = c) (tasks (pool s)))
     + length (filter (holds c) (workers s))
     + length (filter (awaits c) (producers s))"

definition unresolved :: "nat \<Rightarrow> system \<Rightarrow> bool" where
  "unresolved c s = (c < length (shared s) \<and> result (shared s ! c) = None)"

definition channels_ok :: "system \<Rightarrow> bool" where
  "channels_ok s = (\<forall>c. holders c s \<le> (if unresolved c s then 1 else 0))"

text \<open>
  The schedule in which worker \<open>w\<close> alone goes \<open>n\<close> times round its loop and then calls
  \<open>GetNextTask\<close> once more.
\<close>

fun drain :: "nat \<Rightarrow> nat \<Rightarrow> action list" where
  "drain w 0 = [Worker_GetNextTask w]"
| "drain w (Suc n) =
     [Worker_GetNextTask w, Worker_Run w, Worker_NotifyTaskCompletion w] @ drain w n"

section \<open>Properties\<close>

subsection \<open>Submission\<close>

text \<open>
  C3.  A call of the blocking \<open>Enqueue\<close> that finds \<open>stop_\<close> true fails with the runtime
  error "enqueue on stopped ThreadPool" and changes nothing: neither the pool (so the queue
  keeps its contents) nor anything else of the system.
\<close>

theorem Enqueue_on_stopped_pool:
  "stop (pool s) \<Longrightarrow>
     Enqueue t (pool s) = (Inl (runtime_error ''enqueue on stopped ThreadPool''), pool s)
   \<and> step (Call_Enqueue f) s = Some (Threw (runtime_error ''enqueue on stopped ThreadPool''), s)"
  by (simp add: Enqueue_def Let_def)

theorem Enqueue_on_stopped_pool_witness:
  "stop (pool \<lparr>pool = \<lparr>tasks = [\<lparr>chan = 0, body = Value 7\<rparr>], stop = True, activeTasks = 0,
                        maxQueueSize = 4\<rparr>,
              workers = [Waiting], producers = [], waiters = [],
              shared = [\<lparr>result = None, has_future = True\<rparr>]\<rparr>)
   \<and> fst (Enqueue \<lparr>chan = 1, body = Value 8\<rparr>
             \<lparr>tasks = [\<lparr>chan = 0, body = Value 7\<rparr>], stop = True, activeTasks = 0,
              maxQueueSize = 4\<rparr>)
       = Inl (runtime_error ''enqueue on stopped ThreadPool'')
   \<and> tasks (snd (Enqueue \<lparr>chan = 1, body = Value 8\<rparr>
             \<lparr>tasks = [\<lparr>chan = 0, body = Value 7\<rparr>], stop = True, activeTasks = 0,
              maxQueueSize = 4\<rparr>))
       = [\<lparr>chan = 0, body = Value 7\<rparr>]"
  using Enqueue_on_stopped_pool
    [of "\<lparr>pool = \<lparr>tasks = [\<lparr>chan = 0, body = Value 7\<rparr>], stop = True, activeTasks = 0,
                    maxQueueSize = 4\<rparr>,
          workers = [Waiting], producers = [], waiters = [],
          shared = [\<lparr>result = None, has_future = True\<rparr>]\<rparr>"
        "\<lparr>chan = 1, body = Value 8\<rparr>" "Value 8"]
  by simp

text \<open>
  C5.  \<open>TryEnqueue\<close> never waits and has no \<open>throw\<close> of its own.  It returns \<open>false\<close> with
  the pool unchanged exactly when \<open>stop_\<close> is true or the queue length is at or above
  \<open>maxQueueSize_\<close>.  Otherwise it makes the task and inserts it: if that throws, the exception
  leaves \<open>TryEnqueue\<close> and the queue is unchanged; if not, the task is appended at the back
  and the value is \<open>true\<close>.  In the system the caller receives \<open>Rejected\<close>, \<open>Threw\<close> or
  \<open>Accepted\<close>, never a future, and the packaged task of an accepted call has no future.
\<close>

theorem TryEnqueue_returns_bool:
  "TryEnqueue made p =
     (if stop p \<or> unat (maxQueueSize p) \<le> length (tasks p) then (Inr False, p)
      else (case made of
              Inl e \<Rightarrow> (Inl e, p)
            | Inr t \<Rightarrow> (Inr True, p\<lparr>tasks := tasks p @ [t]\<rparr>)))
   \<and> step (Call_TryEnqueue f) s =
     (if stop (pool s) \<or> unat (maxQueueSize (pool s)) \<le> length (tasks (pool s))
      then Some (Rejected, s)
      else Some (Accepted (new_task (discard_value f) s),
                 s\<lparr>pool := (pool s)\<lparr>tasks := tasks (pool s) @ [new_task (discard_value f) s]\<rparr>,
                   shared := shared s @ [\<lparr>result = None, has_future = False\<rparr>]\<rparr>))
   \<and> step (Call_TryEnqueue_throwing e) s =
     (if stop (pool s) \<or> unat (maxQueueSize (pool s)) \<le> length (tasks (pool s))
      then Some (Rejected, s)
      else Some (Threw e, s))"
  by (simp add: TryEnqueue_def queue_full_def emplace_def Let_def split: sum.splits)

theorem TryEnqueue_returns_bool_witness:
  "TryEnqueue (Inr \<lparr>chan = 1, body = Value 8\<rparr>)
     \<lparr>tasks = [\<lparr>chan = 0, body = Value 7\<rparr>], stop = False, activeTasks = 0, maxQueueSize = 1\<rparr>
   = (Inr False, \<lparr>tasks = [\<lparr>chan = 0, body = Value 7\<rparr>], stop = False, activeTasks = 0,
                   maxQueueSize = 1\<rparr>)
   \<and> TryEnqueue (Inl bad_alloc)
     \<lparr>tasks = [\<lparr>chan = 0, body = Value 7\<rparr>], stop = True, activeTasks = 0, maxQueueSize = 2\<rparr>
   = (Inr False, \<lparr>tasks = [\<lparr>chan = 0, body = Value 7\<rparr>], stop = True, activeTasks = 0,
                   maxQueueSize = 2\<rparr>)
   \<and> TryEnqueue (Inr \<lparr>chan = 1, body = Value 8\<rparr>)
     \<lparr>tasks = [\<lparr>chan = 0, body = Value 7\<rparr>], stop = False, activeTasks = 0, maxQueueSize = 2\<rparr>
   = (Inr True, \<lparr>tasks = [\<lparr>chan = 0, body = Value 7\<rparr>, \<lparr>chan = 1, body = Value 8\<rparr>],
                  stop = False, activeTasks = 0, maxQueueSize = 2\<rparr>)
   \<and> TryEnqueue (Inl (copy_error ''copy''))
     \<lparr>tasks = [\<lparr>chan = 0, body = Value 7\<rparr>], stop = False, activeTasks = 0, maxQueueSize = 2\<rparr>
   = (Inl (copy_error ''copy''),
      \<lparr>tasks = [\<lparr>chan = 0, body = Value 7\<rparr>], stop = False, activeTasks = 0, maxQueueSize = 2\<rparr>)"
  using TryEnqueue_returns_bool
    [of "Inr \<lparr>chan = 1, body = Value 8\<rparr>"
        "\<lparr>tasks = [\<lparr>chan = 0, body = Value 7\<rparr>], stop = False, activeTasks = 0,
          maxQueueSize = 1\<rparr>"]
    TryEnqueue_returns_bool
    [of "Inl bad_alloc"
        "\<lparr>tasks = [\<lparr>chan = 0, body = Value 7\<rparr>], stop = True, activeTasks = 0,
          maxQueueSize = 2\<rparr>"]
    TryEnqueue_returns_bool
    [of "Inr \<lparr>chan = 1, body = Value 8\<rparr>"
        "\<lparr>tasks = [\<lparr>chan = 0, body = Value 7\<rparr>], stop = False, activeTasks = 0,
          maxQueueSize = 2\<rparr>"]
    TryEnqueue_returns_bool
    [of "Inl (copy_error ''copy'')"
        "\<lparr>tasks = [\<lparr>chan = 0, body = Value 7\<rparr>], stop = False, activeTasks = 0,
          maxQueueSize = 2\<rparr>"]
  by simp

text \<open>
  C5, as the claim states it: \<open>TryEnqueue\<close> never raises an error.  It fails on a pool that
  is open and has room, when making the task throws: here \<open>std::bad_alloc\<close> on the new pool
  of one worker and capacity four.  The exception leaves \<open>TryEnqueue\<close>; no boolean is
  returned and nothing is appended.
\<close>

theorem TryEnqueue_throws:
  "TryEnqueue (Inl bad_alloc) (new_ThreadPool 4) = (Inl bad_alloc, new_ThreadPool 4)
   \<and> step (Call_TryEnqueue_throwing bad_alloc) (new_system 1 4)
     = Some (Threw bad_alloc, new_system 1 4)"
  by (simp add: TryEnqueue_def queue_full_def new_system_def new_ThreadPool_def)

subsection \<open>The pop operation\<close>

text \<open>
  C6.  \<open>GetNextTask\<close> is one critical section.  With the queue empty it stays blocked
  unless \<open>stop_\<close> is true, and then returns the empty function and leaves the state as it
  is; with the queue non-empty it returns the front task, removes it from the queue and adds
  one to \<open>activeTasks_\<close> (as a \<open>size_t\<close>), whether or not \<open>stop_\<close> is true.
\<close>

theorem GetNextTask_pop:
  "GetNextTask p =
     (case tasks p of
        [] \<Rightarrow> if stop p then Some (None, p) else None
      | t # ts \<Rightarrow> Some (Some t, p\<lparr>tasks := ts, activeTasks := activeTasks p + 1\<rparr>))"
  by (simp add: GetNextTask_def split: list.splits)

theorem GetNextTask_pop_witness:
  "GetNextTask \<lparr>tasks = [], stop = False, activeTasks = 0, maxQueueSize = 2\<rparr> = None
   \<and> GetNextTask \<lparr>tasks = [], stop = True, activeTasks = 0, maxQueueSize = 2\<rparr>
     = Some (None, \<lparr>tasks = [], stop = True, activeTasks = 0, maxQueueSize = 2\<rparr>)
   \<and> GetNextTask \<lparr>tasks = [\<lparr>chan = 0, body = Value 7\<rparr>, \<lparr>chan = 1, body = Value 8\<rparr>],
                  stop = False, activeTasks = 1, maxQueueSize = 2\<rparr>
     = Some (Some \<lparr>chan = 0, body = Value 7\<rparr>,
             \<lparr>tasks = [\<lparr>chan = 1, body = Value 8\<rparr>], stop = False, activeTasks = 2,
              maxQueueSize = 2\<rparr>)"
  using GetNextTask_pop [of "\<lparr>tasks = [], stop = False, activeTasks = 0, maxQueueSize = 2\<rparr>"]
    GetNextTask_pop [of "\<lparr>tasks = [], stop = True, activeTasks = 0, maxQueueSize = 2\<rparr>"]
    GetNextTask_pop [of "\<lparr>tasks = [\<lparr>chan = 0, body = Value 7\<rparr>, \<lparr>chan = 1, body = Value 8\<rparr>],
                         stop = False, activeTasks = 1, maxQueueSize = 2\<rparr>"]
  by simp





subsection \<open>The stop flag\<close>

lemma step_keeps_stop: "step a s = Some (e, s') \<Longrightarrow> stop (pool s) \<Longrightarrow> stop (pool s')"
  by (cases a)
     (auto simp: Let_def Enqueue_def Enqueue_after_wait_def TryEnqueue_def emplace_def
        GetNextTask_def NotifyTaskCompletion_def SignalThreadsToStop_def WaitForAllTasks_def
      split: if_splits option.splits prod.splits sum.splits worker.splits
        enqueue_status.splits bool.splits)

lemma run_keeps_stop: "run as s = Some (es, s') \<Longrightarrow> stop (pool s) \<Longrightarrow> stop (pool s')"
proof (induction as arbitrary: s es)
  case Nil
  then show ?case by simp
next
  case (Cons a as)
  then show ?case
    by (auto split: option.splits prod.splits dest: step_keeps_stop)
qed

text \<open>
  C8.  No member function assigns \<open>false\<close> to \<open>stop_\<close>: the constructor initialises it and
  \<open>SignalThreadsToStop\<close> sets it to \<open>true\<close>.  Once it is true it is true after every member
  function, after every step of every thread and after every schedule.
\<close>

theorem stop_is_monotonic:
  assumes "stop (pool s)"
  shows "stop (snd (Enqueue t (pool s)))
       \<and> (\<forall>timed_out r. Enqueue_after_wait timed_out t (pool s) = Some r \<longrightarrow> stop (snd r))
       \<and> (\<forall>made. stop (snd (TryEnqueue made (pool s))))
       \<and> (\<forall>r. GetNextTask (pool s) = Some r \<longrightarrow> stop (snd r))
       \<and> stop (snd (NotifyTaskCompletion (pool s)))
       \<and> (\<forall>p'. WaitForAllTasks (pool s) = Some p' \<longrightarrow> stop p')
       \<and> stop (SignalThreadsToStop (pool s))
       \<and> (\<forall>a e s'. step a s = Some (e, s') \<longrightarrow> stop (pool s'))
       \<and> (\<forall>as es s'. run as s = Some (es, s') \<longrightarrow> stop (pool s'))"
proof -
  have "stop (snd (Enqueue t (pool s)))"
    and "\<forall>timed_out r. Enqueue_after_wait timed_out t (pool s) = Some r \<longrightarrow> stop (snd r)"
    and "\<forall>made. stop (snd (TryEnqueue made (pool s)))"
    and "\<forall>r. GetNextTask (pool s) = Some r \<longrightarrow> stop (snd r)"
    and "stop (snd (NotifyTaskCompletion (pool s)))"
    and "\<forall>p'. WaitForAllTasks (pool s) = Some p' \<longrightarrow> stop p'"
    and "stop (SignalThreadsToStop (pool s))"
    using assms
    by (auto simp: Enqueue_def Enqueue_after_wait_def TryEnqueue_def emplace_def
        GetNextTask_def NotifyTaskCompletion_def SignalThreadsToStop_def WaitForAllTasks_def
        Let_def split: if_splits)
  moreover have "\<forall>a e s'. step a s = Some (e, s') \<longrightarrow> stop (pool s')"
    using assms step_keeps_stop by blast
  moreover have "\<forall>as es s'. run as s = Some (es, s') \<longrightarrow> stop (pool s')"
    using assms run_keeps_stop by blast
  ultimately show ?thesis by blast
qed

theorem stop_is_monotonic_witness:
  "stop (pool \<lparr>pool = \<lparr>tasks = [\<lparr>chan = 0, body = Value 7\<rparr>], stop = True, activeTasks = 0,
                        maxQueueSize = 4\<rparr>,
               workers = [Waiting], producers = [], waiters = [],
               shared = [\<lparr>result = None, has_future = True\<rparr>]\<rparr>)
   \<and> run [Worker_GetNextTask 0, Worker_Run 0, Worker_NotifyTaskCompletion 0, Call_TryEnqueue (Value 8)]
          \<lparr>pool = \<lparr>tasks = [\<lparr>chan = 0, body = Value 7\<rparr>], stop = True, activeTasks = 0,
                    maxQueueSize = 4\<rparr>,
           workers = [Waiting], producers = [], waiters = [],
           shared = [\<lparr>result = None, has_future = True\<rparr>]\<rparr>
      = Some ([Dequeued \<lparr>chan = 0, body = Value 7\<rparr>, Ran \<lparr>chan = 0, body = Value 7\<rparr>,
               Completed, Rejected],
              \<lparr>pool = \<lparr>tasks = [], stop = True, activeTasks = 0, maxQueueSize = 4\<rparr>,
               workers = [Waiting], producers = [], waiters = [],
               shared = [\<lparr>result = Some (Value 7), has_future = True\<rparr>]\<rparr>)
   \<and> stop (pool \<lparr>pool = \<lparr>tasks = [], stop = True, activeTasks = 0, maxQueueSize = 4\<rparr>,
                  workers = [Waiting], producers = [], waiters = [],
                  shared = [\<lparr>result = Some (Value 7), has_future = True\<rparr>]\<rparr>)"
proof -
  let ?s = "\<lparr>pool = \<lparr>tasks = [\<lparr>chan = 0, body = Value 7\<rparr>], stop = True, activeTasks = 0,
                     maxQueueSize = 4 :: 64 word\<rparr>,
             workers = [Waiting], producers = [], waiters = [],
             shared = [\<lparr>result = None, has_future = True\<rparr>]\<rparr>"
  have stopped: "stop (pool ?s)" by simp
  have ran: "run [Worker_GetNextTask 0, Worker_Run 0, Worker_NotifyTaskCompletion 0,
                  Call_TryEnqueue (Value 8)] ?s
      = Some ([Dequeued \<lparr>chan = 0, body = Value 7\<rparr>, Ran \<lparr>chan = 0, body = Value 7\<rparr>,
               Completed, Rejected],
              \<lparr>pool = \<lparr>tasks = [], stop = True, activeTasks = 0, maxQueueSize = 4\<rparr>,
               workers = [Waiting], producers = [], waiters = [],
               shared = [\<lparr>result = Some (Value 7), has_future = True\<rparr>]\<rparr>)"
    by (simp add: GetNextTask_def invoke_def NotifyTaskCompletion_def TryEnqueue_def Let_def)
  from stop_is_monotonic [OF stopped, of "\<lparr>chan = 1, body = Value 8\<rparr>"] ran
  have "stop (pool \<lparr>pool = \<lparr>tasks = [], stop = True, activeTasks = 0, maxQueueSize = 4\<rparr>,
                    workers = [Waiting], producers = [], waiters = [],
                    shared = [\<lparr>result = Some (Value 7), has_future = True\<rparr>]\<rparr>)"
    by blast
  with stopped ran show ?thesis by blast
qed

subsection \<open>Order of the queue\<close>

lemma pushed_Cons: "pushed (e # es) = pushed [e] @ pushed es"
  by (cases e) simp_all

lemma popped_Cons: "popped (e # es) = popped [e] @ popped es"
  by (cases e) simp_all

lemma step_fifo:
  "step a s = Some (e, s') \<Longrightarrow> tasks (pool s) @ pushed [e] = popped [e] @ tasks (pool s')"
  by (cases a)
     (auto simp: Let_def Enqueue_def Enqueue_after_wait_def TryEnqueue_def emplace_def
        GetNextTask_def NotifyTaskCompletion_def SignalThreadsToStop_def WaitForAllTasks_def
      split: if_splits option.splits prod.splits sum.splits worker.splits
        enqueue_status.splits bool.splits)

lemma run_fifo:
  "run as s = Some (es, s') \<Longrightarrow> tasks (pool s) @ pushed es = popped es @ tasks (pool s')"
proof (induction as arbitrary: s es)
  case Nil
  then show ?case by simp
next
  case (Cons a as)
  from Cons.prems obtain e s1 es1 where a: "step a s = Some (e, s1)"
    and r: "run as s1 = Some (es1, s')" and es: "es = e # es1"
    by (auto split: option.splits prod.splits)
  from step_fifo [OF a]
  have "tasks (pool s) @ pushed [e] @ pushed es1 = popped [e] @ tasks (pool s1) @ pushed es1"
    by simp
  also have "\<dots> = popped [e] @ popped es1 @ tasks (pool s')"
    using Cons.IH [OF r] by simp
  finally show ?case
    unfolding es using pushed_Cons [of e es1] popped_Cons [of e es1] by simp
qed

lemma replicate_two: "replicate 2 x = [x, x]"
  by (simp add: numeral_2_eq_2)

lemma overtaking:
  "run [Call_Enqueue (Value 1), Call_Enqueue (Value 2), Worker_GetNextTask 0,
        Worker_GetNextTask 1, Worker_Run 1, Worker_Run 0] (new_system 2 10)
   = Some ([Future \<lparr>chan = 0, body = Value 1\<rparr>, Future \<lparr>chan = 1, body = Value 2\<rparr>,
            Dequeued \<lparr>chan = 0, body = Value 1\<rparr>, Dequeued \<lparr>chan = 1, body = Value 2\<rparr>,
            Ran \<lparr>chan = 1, body = Value 2\<rparr>, Ran \<lparr>chan = 0, body = Value 1\<rparr>],
           \<lparr>pool = \<lparr>tasks = [], stop = False, activeTasks = 2, maxQueueSize = 10\<rparr>,
            workers = [Completing, Completing], producers = [], waiters = [],
            shared = [\<lparr>result = Some (Value 1), has_future = True\<rparr>,
                      \<lparr>result = Some (Value 2), has_future = True\<rparr>]\<rparr>)"
  by (simp add: new_system_def new_ThreadPool_def new_task_def Enqueue_def queue_full_def
      emplace_def GetNextTask_def invoke_def Let_def replicate_two)

text \<open>
  C7.  Along every schedule the tasks popped so far, followed by the tasks still in the
  queue, are the tasks that were in the queue at the start followed by the tasks pushed
  since, in the order of the pushes: tasks leave the queue in the order they entered it.
  The order in which tasks run is not fixed by that: with two workers there is a schedule
  in which the task pushed and popped second runs first.
\<close>

theorem queue_is_FIFO:
  "(run as s = Some (es, s') \<longrightarrow> tasks (pool s) @ pushed es = popped es @ tasks (pool s'))
   \<and> (\<exists>bs es2 s2. run bs (new_system 2 10) = Some (es2, s2)
         \<and> pushed es2 = [\<lparr>chan = 0, body = Value 1\<rparr>, \<lparr>chan = 1, body = Value 2\<rparr>]
         \<and> popped es2 = [\<lparr>chan = 0, body = Value 1\<rparr>, \<lparr>chan = 1, body = Value 2\<rparr>]
         \<and> executed es2 = [\<lparr>chan = 1, body = Value 2\<rparr>, \<lparr>chan = 0, body = Value 1\<rparr>])"
proof (intro conjI impI)
  assume "run as s = Some (es, s')"
  then show "tasks (pool s) @ pushed es = popped es @ tasks (pool s')"
    by (rule run_fifo)
next
  show "\<exists>bs es2 s2. run bs (new_system 2 10) = Some (es2, s2)
         \<and> pushed es2 = [\<lparr>chan = 0, body = Value 1\<rparr>, \<lparr>chan = 1, body = Value 2\<rparr>]
         \<and> popped es2 = [\<lparr>chan = 0, body = Value 1\<rparr>, \<lparr>chan = 1, body = Value 2\<rparr>]
         \<and> executed es2 = [\<lparr>chan = 1, body = Value 2\<rparr>, \<lparr>chan = 0, body = Value 1\<rparr>]"
    by (intro exI conjI, rule overtaking) simp_all
qed

theorem queue_is_FIFO_witness:
  "run [Call_Enqueue (Value 1), Call_TryEnqueue (Value 2), Worker_GetNextTask 0, Worker_Run 0,
        Worker_NotifyTaskCompletion 0, Call_Enqueue (Value 3), Worker_GetNextTask 0]
     (new_system 1 10)
   = Some ([Future \<lparr>chan = 0, body = Value 1\<rparr>, Accepted \<lparr>chan = 1, body = Void\<rparr>,
            Dequeued \<lparr>chan = 0, body = Value 1\<rparr>, Ran \<lparr>chan = 0, body = Value 1\<rparr>, Completed,
            Future \<lparr>chan = 2, body = Value 3\<rparr>, Dequeued \<lparr>chan = 1, body = Void\<rparr>],
           \<lparr>pool = \<lparr>tasks = [\<lparr>chan = 2, body = Value 3\<rparr>], stop = False, activeTasks = 1,
                    maxQueueSize = 10\<rparr>,
            workers = [Executing \<lparr>chan = 1, body = Void\<rparr>], producers = [], waiters = [],
            shared = [\<lparr>result = Some (Value 1), has_future = True\<rparr>,
                      \<lparr>result = None, has_future = False\<rparr>,
                      \<lparr>result = None, has_future = True\<rparr>]\<rparr>)
   \<and> tasks (pool (new_system 1 10))
       @ pushed [Future \<lparr>chan = 0, body = Value 1\<rparr>, Accepted \<lparr>chan = 1, body = Void\<rparr>,
            Dequeued \<lparr>chan = 0, body = Value 1\<rparr>, Ran \<lparr>chan = 0, body = Value 1\<rparr>, Completed,
            Future \<lparr>chan = 2, body = Value 3\<rparr>, Dequeued \<lparr>chan = 1, body = Void\<rparr>]
     = popped [Future \<lparr>chan = 0, body = Value 1\<rparr>, Accepted \<lparr>chan = 1, body = Void\<rparr>,
            Dequeued \<lparr>chan = 0, body = Value 1\<rparr>, Ran \<lparr>chan = 0, body = Value 1\<rparr>, Completed,
            Future \<lparr>chan = 2, body = Value 3\<rparr>, Dequeued \<lparr>chan = 1, body = Void\<rparr>]
       @ [\<lparr>chan = 2, body = Value 3\<rparr>]"
proof -
  have ran: "run [Call_Enqueue (Value 1), Call_TryEnqueue (Value 2), Worker_GetNextTask 0,
        Worker_Run 0, Worker_NotifyTaskCompletion 0, Call_Enqueue (Value 3), Worker_GetNextTask 0]
     (new_system 1 10)
   = Some ([Future \<lparr>chan = 0, body = Value 1\<rparr>, Accepted \<lparr>chan = 1, body = Void\<rparr>,
            Dequeued \<lparr>chan = 0, body = Value 1\<rparr>, Ran \<lparr>chan = 0, body = Value 1\<rparr>, Completed,
            Future \<lparr>chan = 2, body = Value 3\<rparr>, Dequeued \<lparr>chan = 1, body = Void\<rparr>],
           \<lparr>pool = \<lparr>tasks = [\<lparr>chan = 2, body = Value 3\<rparr>], stop = False, activeTasks = 1,
                    maxQueueSize = 10\<rparr>,
            workers = [Executing \<lparr>chan = 1, body = Void\<rparr>], producers = [], waiters = [],
            shared = [\<lparr>result = Some (Value 1), has_future = True\<rparr>,
                      \<lparr>result = None, has_future = False\<rparr>,
                      \<lparr>result = None, has_future = True\<rparr>]\<rparr>)"
    by (simp add: new_system_def new_ThreadPool_def new_task_def Enqueue_def TryEnqueue_def
        queue_full_def emplace_def GetNextTask_def invoke_def NotifyTaskCompletion_def Let_def)
  from queue_is_FIFO [THEN conjunct1, rule_format, OF ran] ran
  show ?thesis by simp
qed

subsection \<open>The counter of active tasks and the completion barrier\<close>

lemma filter_update_count:
  "i < length xs \<Longrightarrow>
     length (filter P (xs[i := y])) + (if P (xs ! i) then 1 else 0)
     = length (filter P xs) + (if P y then 1 else 0)"
proof (induction xs arbitrary: i)
  case Nil
  then show ?case by simp
next
  case (Cons x xs)
  show ?case
  proof (cases i)
    case 0
    then show ?thesis by simp
  next
    case (Suc j)
    with Cons.prems have "j < length xs" by simp
    from Cons.IH [OF this] Suc show ?thesis by simp
  qed
qed

lemma idle_worker_bound:
  "i < length ws \<Longrightarrow> \<not> busy (ws ! i) \<Longrightarrow> length (filter busy ws) < length ws"
  by (rule length_filter_less [of "ws ! i"]) simp_all

lemma busy_worker_counted:
  "i < length ws \<Longrightarrow> busy (ws ! i) \<Longrightarrow> 0 < length (filter busy ws)"
  by (metis filter_empty_conv length_greater_0_conv nth_mem)

lemma unat_incr:
  fixes a :: "64 word"
  assumes "unat a < n" "n < 2 ^ 64"
  shows "unat (a + 1) = unat a + 1"
proof -
  have "unat a + unat (1 :: 64 word) < 2 ^ LENGTH(64)"
    using assms by simp
  then show ?thesis
    by (simp add: unat_add_lem [THEN iffD1])
qed

lemma unat_decr:
  fixes a :: "64 word"
  assumes "0 < unat a"
  shows "unat (a - 1) = unat a - 1"
  using assms by (simp add: unat_minus_one unat_gt_0)

lemma no_Asleep_wake: "Asleep \<notin> wake ` W"
  by (auto simp: wake_def split: waiter.splits)

lemma no_Asleep_update:
  "Asleep \<notin> set ws \<Longrightarrow> y \<noteq> Asleep \<Longrightarrow> Asleep \<notin> set (ws[i := y])"
  using set_update_subset_insert [of ws i y] by auto

lemma consistent_new_system: "threads < 2 ^ 64 \<Longrightarrow> consistent (new_system threads cap)"
  by (simp add: consistent_def new_system_def new_ThreadPool_def)

lemma consistent_Enqueue:
  "consistent s \<Longrightarrow> step (Call_Enqueue f) s = Some (e, s') \<Longrightarrow> consistent s'"
  by (auto simp: consistent_def Let_def Enqueue_def emplace_def all_done_def split: if_splits)

lemma consistent_Resume:
  "consistent s \<Longrightarrow> step (Resume_Enqueue i b) s = Some (e, s') \<Longrightarrow> consistent s'"
  by (auto simp: consistent_def Enqueue_after_wait_def emplace_def all_done_def
      split: if_splits option.splits)

lemma consistent_TryEnqueue:
  "consistent s \<Longrightarrow> step (Call_TryEnqueue f) s = Some (e, s') \<Longrightarrow> consistent s'"
  by (auto simp: consistent_def Let_def TryEnqueue_def emplace_def all_done_def
      split: if_splits)

lemma consistent_GetNextTask:
  assumes "consistent s" "step (Worker_GetNextTask w) s = Some (e, s')"
  shows "consistent s'"
proof -
  from assms(2) have w: "w < length (workers s)" "workers s ! w = Waiting"
    by (auto split: if_splits)
  from assms(1) have len: "length (workers s) < 2 ^ 64"
    and act: "unat (activeTasks (pool s)) = length (filter busy (workers s))"
    and slp: "all_done (pool s) \<longrightarrow> Asleep \<notin> set (waiters s)"
    by (simp_all add: consistent_def)
  from w have idle: "length (filter busy (workers s)) < length (workers s)"
    by (intro idle_worker_bound [of w]) simp_all
  show ?thesis
  proof (cases "stop (pool s) \<and> tasks (pool s) = []")
    case True
    with assms(2) w have s': "s' = s\<lparr>workers := (workers s)[w := Terminated]\<rparr>"
      by (simp add: GetNextTask_def)
    from filter_update_count [OF w(1), of busy Terminated] w(2)
    have "length (filter busy ((workers s)[w := Terminated])) = length (filter busy (workers s))"
      by simp
    with len act slp show ?thesis
      by (simp add: s' consistent_def)
  next
    case False
    with assms(2) w have ne: "tasks (pool s) \<noteq> []"
      and s': "s' = s\<lparr>pool := (pool s)\<lparr>tasks := tl (tasks (pool s)),
                         activeTasks := activeTasks (pool s) + 1\<rparr>,
                     workers := (workers s)[w := Executing (hd (tasks (pool s)))]\<rparr>"
      by (auto simp: GetNextTask_def split: if_splits)
    from filter_update_count [OF w(1), of busy "Executing (hd (tasks (pool s)))"] w(2)
    have cnt: "length (filter busy ((workers s)[w := Executing (hd (tasks (pool s)))]))
                = length (filter busy (workers s)) + 1"
      by simp
    from idle act have "unat (activeTasks (pool s)) < length (workers s)"
      by simp
    from unat_incr [OF this len]
    have inc: "unat (activeTasks (pool s) + 1) = unat (activeTasks (pool s)) + 1" .
    then have "activeTasks (pool s) + 1 \<noteq> 0"
      by (metis Suc_eq_plus1 nat.distinct(1) unat_0)
    with len act cnt inc show ?thesis
      by (simp add: s' consistent_def all_done_def)
  qed
qed

lemma consistent_Run:
  assumes "consistent s" "step (Worker_Run w) s = Some (e, s')"
  shows "consistent s'"
proof -
  from assms(2) obtain t where w: "w < length (workers s)" "workers s ! w = Executing t"
    by (auto split: if_splits worker.splits)
  have same: "busy y \<Longrightarrow>
      length (filter busy ((workers s)[w := y])) = length (filter busy (workers s))" for y
    using filter_update_count [OF w(1), of busy y] w(2) by simp
  show ?thesis
  proof (cases "invoke t (shared s)")
    case None
    with assms(2) w have "s' = s\<lparr>workers := (workers s)[w := Crashed]\<rparr>"
      by simp
    with assms(1) same [of Crashed] show ?thesis
      by (simp add: consistent_def)
  next
    case (Some sh)
    with assms(2) w have "s' = s\<lparr>workers := (workers s)[w := Completing], shared := sh\<rparr>"
      by simp
    with assms(1) same [of Completing] show ?thesis
      by (simp add: consistent_def)
  qed
qed

lemma consistent_Notify:
  assumes "consistent s" "step (Worker_NotifyTaskCompletion w) s = Some (e, s')"
  shows "consistent s'"
proof -
  from assms(2) have w: "w < length (workers s)" "workers s ! w = Completing"
    by (auto split: if_splits)
  from assms(1) have len: "length (workers s) < 2 ^ 64"
    and act: "unat (activeTasks (pool s)) = length (filter busy (workers s))"
    by (simp_all add: consistent_def)
  let ?p = "(pool s)\<lparr>activeTasks := activeTasks (pool s) - 1\<rparr>"
  from assms(2) w have s': "s' = s\<lparr>pool := ?p, workers := (workers s)[w := Waiting],
       waiters := (if all_done ?p then map wake (waiters s) else waiters s)\<rparr>"
    by (auto simp: NotifyTaskCompletion_def Let_def all_done_def)
  from filter_update_count [OF w(1), of busy Waiting] w(2)
  have cnt: "length (filter busy ((workers s)[w := Waiting])) + 1
              = length (filter busy (workers s))"
    by simp
  with act have "0 < unat (activeTasks (pool s))"
    by linarith
  from unat_decr [OF this]
  have "unat (activeTasks (pool s) - 1) = unat (activeTasks (pool s)) - 1" .
  with cnt act have a': "unat (activeTasks ?p) = length (filter busy ((workers s)[w := Waiting]))"
    by simp
  show ?thesis
    unfolding consistent_def s' using len a' by (simp add: no_Asleep_wake all_done_def)
qed

lemma consistent_rest:
  "consistent s \<Longrightarrow>
   a \<in> {Destructor_SignalThreadsToStop, Call_WaitForAllTasks, Waiter_Wake i, Waiter_Recheck i,
        Call_TryEnqueue_throwing x} \<Longrightarrow>
   step a s = Some (e, s') \<Longrightarrow> consistent s'"
  by (auto simp: consistent_def SignalThreadsToStop_def WaitForAllTasks_def all_done_def
        TryEnqueue_def no_Asleep_update
      split: if_splits option.splits)

lemma consistent_step: "consistent s \<Longrightarrow> step a s = Some (e, s') \<Longrightarrow> consistent s'"
  by (cases a)
     (blast intro: consistent_Enqueue consistent_Resume consistent_TryEnqueue
        consistent_GetNextTask consistent_Run consistent_Notify consistent_rest)+

lemma consistent_run: "consistent s \<Longrightarrow> run as s = Some (es, s') \<Longrightarrow> consistent s'"
proof (induction as arbitrary: s es)
  case Nil
  then show ?case by simp
next
  case (Cons a as)
  then show ?case
    by (auto split: option.splits prod.splits dest: consistent_step)
qed

lemma returns_only_when_done:
  "step a s = Some (BarrierReturned, s') \<Longrightarrow> tasks (pool s) = [] \<and> activeTasks (pool s) = 0"
  by (cases a)
     (auto simp: Let_def Enqueue_def Enqueue_after_wait_def TryEnqueue_def GetNextTask_def
        NotifyTaskCompletion_def WaitForAllTasks_def all_done_def
      split: if_splits option.splits prod.splits sum.splits worker.splits
        enqueue_status.splits bool.splits)

lemma all_done_stable_step:
  assumes "consistent s" "all_done (pool s)" "\<not> is_submission a" "step a s = Some (e, s')"
  shows "all_done (pool s')"
proof (cases a)
  case (Worker_GetNextTask w)
  with assms(2,4) show ?thesis
    by (auto simp: GetNextTask_def all_done_def split: if_splits)
next
  case (Worker_NotifyTaskCompletion w)
  with assms(4) have "w < length (workers s)" "busy (workers s ! w)"
    by (auto split: if_splits)
  from busy_worker_counted [OF this] assms(1) have "0 < unat (activeTasks (pool s))"
    by (simp add: consistent_def)
  with assms(2) show ?thesis
    by (simp add: all_done_def unat_gt_0)
qed (use assms in \<open>auto simp: SignalThreadsToStop_def WaitForAllTasks_def all_done_def
      TryEnqueue_def split: if_splits option.splits worker.splits\<close>)

lemma all_done_stable_run:
  "consistent s \<Longrightarrow> all_done (pool s) \<Longrightarrow> \<forall>b\<in>set bs. \<not> is_submission b \<Longrightarrow>
   run bs s = Some (es, s') \<Longrightarrow> all_done (pool s') \<and> consistent s'"
proof (induction bs arbitrary: s es)
  case Nil
  then show ?case by simp
next
  case (Cons b bs)
  from Cons.prems(4) obtain e s1 es1 where b: "step b s = Some (e, s1)"
    and r: "run bs s1 = Some (es1, s')"
    by (auto split: option.splits prod.splits)
  from Cons.prems(3) have nb: "\<not> is_submission b" and nbs: "\<forall>b\<in>set bs. \<not> is_submission b"
    by simp_all
  from all_done_stable_step [OF Cons.prems(1,2) nb b] consistent_step [OF Cons.prems(1) b]
  show ?case
    using Cons.IH [OF _ _ nbs r] by blast
qed

text \<open>
  C2.  The wait in \<open>WaitForAllTasks\<close> can return only in a state in which the queue is
  empty and \<open>activeTasks_\<close> is zero, and it changes nothing.  In every state that a pool
  of fewer than \<open>2 ^ 64\<close> threads reaches from its construction:
  a thread returns from \<open>WaitForAllTasks\<close> only if the queue is empty and \<open>activeTasks_\<close> is
  zero; and if both hold, a new call returns at once, no thread inside \<open>WaitForAllTasks\<close> is
  asleep in \<open>finished_\<close> (the \<open>notify_all\<close> of \<open>NotifyTaskCompletion\<close> has woken it), every
  woken thread returns with its next test of the predicate, and both stay so along every
  schedule without submissions.
\<close>

theorem WaitForAllTasks_barrier:
  assumes "threads < 2 ^ 64" and "run as (new_system threads cap) = Some (es, s)"
  shows "WaitForAllTasks p = (if tasks p = [] \<and> activeTasks p = 0 then Some p else None)
       \<and> (\<forall>a s'. step a s = Some (BarrierReturned, s') \<longrightarrow>
            tasks (pool s) = [] \<and> activeTasks (pool s) = 0)
       \<and> (tasks (pool s) = [] \<and> activeTasks (pool s) = 0 \<longrightarrow>
            step Call_WaitForAllTasks s = Some (BarrierReturned, s)
          \<and> (\<forall>i<length (waiters s). waiters s ! i \<noteq> Asleep
               \<and> (waiters s ! i = Awake \<longrightarrow> step (Waiter_Recheck i) s
                    = Some (BarrierReturned, s\<lparr>waiters := (waiters s)[i := Returned]\<rparr>)))
          \<and> (\<forall>bs es' s'. (\<forall>b\<in>set bs. \<not> is_submission b) \<and> run bs s = Some (es', s') \<longrightarrow>
                tasks (pool s') = [] \<and> activeTasks (pool s') = 0
              \<and> Asleep \<notin> set (waiters s')))"
proof -
  have c: "consistent s"
    using consistent_run [OF consistent_new_system [OF assms(1)] assms(2)] .
  have 0: "WaitForAllTasks p = (if tasks p = [] \<and> activeTasks p = 0 then Some p else None)"
    by (auto simp: WaitForAllTasks_def all_done_def)
  have 1: "\<forall>a s'. step a s = Some (BarrierReturned, s') \<longrightarrow>
            tasks (pool s) = [] \<and> activeTasks (pool s) = 0"
    using returns_only_when_done by blast
  have 2: "step Call_WaitForAllTasks s = Some (BarrierReturned, s)
          \<and> (\<forall>i<length (waiters s). waiters s ! i \<noteq> Asleep
               \<and> (waiters s ! i = Awake \<longrightarrow> step (Waiter_Recheck i) s
                    = Some (BarrierReturned, s\<lparr>waiters := (waiters s)[i := Returned]\<rparr>)))
          \<and> (\<forall>bs es' s'. (\<forall>b\<in>set bs. \<not> is_submission b) \<and> run bs s = Some (es', s') \<longrightarrow>
                tasks (pool s') = [] \<and> activeTasks (pool s') = 0
              \<and> Asleep \<notin> set (waiters s'))"
    if d: "tasks (pool s) = [] \<and> activeTasks (pool s) = 0"
  proof -
    from d have ad: "all_done (pool s)"
      by (simp add: all_done_def)
    with c have na: "Asleep \<notin> set (waiters s)"
      by (simp add: consistent_def)
    have a: "step Call_WaitForAllTasks s = Some (BarrierReturned, s)"
      using ad by (simp add: WaitForAllTasks_def)
    have b: "\<forall>i<length (waiters s). waiters s ! i \<noteq> Asleep
               \<and> (waiters s ! i = Awake \<longrightarrow> step (Waiter_Recheck i) s
                    = Some (BarrierReturned, s\<lparr>waiters := (waiters s)[i := Returned]\<rparr>))"
      using na ad by (auto simp: WaitForAllTasks_def dest: nth_mem)
    have "tasks (pool s') = [] \<and> activeTasks (pool s') = 0 \<and> Asleep \<notin> set (waiters s')"
      if "\<forall>b\<in>set bs. \<not> is_submission b" "run bs s = Some (es', s')" for bs es' s'
      using all_done_stable_run [OF c ad that] by (auto simp: all_done_def consistent_def)
    with a b show ?thesis by blast
  qed
  from 0 1 2 show ?thesis by blast
qed

theorem WaitForAllTasks_barrier_witness:
  "(1 :: nat) < 2 ^ 64
   \<and> run [Call_Enqueue (Value 1), Call_WaitForAllTasks, Worker_GetNextTask 0, Worker_Run 0,
          Worker_NotifyTaskCompletion 0] (new_system 1 4)
     = Some ([Future \<lparr>chan = 0, body = Value 1\<rparr>, BarrierSleeps,
              Dequeued \<lparr>chan = 0, body = Value 1\<rparr>, Ran \<lparr>chan = 0, body = Value 1\<rparr>, Completed],
             \<lparr>pool = \<lparr>tasks = [], stop = False, activeTasks = 0, maxQueueSize = 4\<rparr>,
              workers = [Waiting], producers = [], waiters = [Awake],
              shared = [\<lparr>result = Some (Value 1), has_future = True\<rparr>]\<rparr>)
   \<and> step (Waiter_Recheck 0)
          \<lparr>pool = \<lparr>tasks = [], stop = False, activeTasks = 0, maxQueueSize = 4\<rparr>,
           workers = [Waiting], producers = [], waiters = [Awake],
           shared = [\<lparr>result = Some (Value 1), has_future = True\<rparr>]\<rparr>
     = Some (BarrierReturned,
             \<lparr>pool = \<lparr>tasks = [], stop = False, activeTasks = 0, maxQueueSize = 4\<rparr>,
              workers = [Waiting], producers = [], waiters = [Returned],
              shared = [\<lparr>result = Some (Value 1), has_future = True\<rparr>]\<rparr>)"
proof -
  have few: "(1 :: nat) < 2 ^ 64"
    by simp
  have ran: "run [Call_Enqueue (Value 1), Call_WaitForAllTasks, Worker_GetNextTask 0,
          Worker_Run 0, Worker_NotifyTaskCompletion 0] (new_system 1 4)
     = Some ([Future \<lparr>chan = 0, body = Value 1\<rparr>, BarrierSleeps,
              Dequeued \<lparr>chan = 0, body = Value 1\<rparr>, Ran \<lparr>chan = 0, body = Value 1\<rparr>, Completed],
             \<lparr>pool = \<lparr>tasks = [], stop = False, activeTasks = 0, maxQueueSize = 4\<rparr>,
              workers = [Waiting], producers = [], waiters = [Awake],
              shared = [\<lparr>result = Some (Value 1), has_future = True\<rparr>]\<rparr>)"
    by (simp add: new_system_def new_ThreadPool_def new_task_def Enqueue_def queue_full_def
        emplace_def GetNextTask_def invoke_def NotifyTaskCompletion_def WaitForAllTasks_def
        all_done_def wake_def Let_def)
  from WaitForAllTasks_barrier [OF few ran]
  have "step (Waiter_Recheck 0)
          \<lparr>pool = \<lparr>tasks = [], stop = False, activeTasks = 0, maxQueueSize = 4\<rparr>,
           workers = [Waiting], producers = [], waiters = [Awake],
           shared = [\<lparr>result = Some (Value 1), has_future = True\<rparr>]\<rparr>
     = Some (BarrierReturned,
             \<lparr>pool = \<lparr>tasks = [], stop = False, activeTasks = 0, maxQueueSize = 4\<rparr>,
              workers = [Waiting], producers = [], waiters = [Returned],
              shared = [\<lparr>result = Some (Value 1), has_future = True\<rparr>]\<rparr>)"
    by simp
  with few ran show ?thesis by blast
qed

subsection \<open>Packaged tasks and their shared states\<close>

lemma channels_ok_new_system: "channels_ok (new_system threads cap)"
  by (simp add: channels_ok_def holders_def new_system_def new_ThreadPool_def)

lemma holders_fresh: "channels_ok s \<Longrightarrow> holders (length (shared s)) s = 0"
  using channels_ok_def [of s] by (auto simp: unresolved_def dest: spec [of _ "length (shared s)"])

lemma channels_ok_push_new:
  assumes ok: "channels_ok s"
    and h: "\<And>c. holders c s' = holders c s + (if c = length (shared s) then 1 else 0)"
    and sh: "shared s' = shared s @ [\<lparr>result = None, has_future = b\<rparr>]"
  shows "channels_ok s'"
  unfolding channels_ok_def
proof
  fix c
  show "holders c s' \<le> (if unresolved c s' then 1 else 0)"
  proof (cases "c = length (shared s)")
    case True
    with holders_fresh [OF ok] h [of c] sh show ?thesis
      by (simp add: unresolved_def)
  next
    case False
    from ok have "holders c s \<le> (if unresolved c s then 1 else 0)"
      by (simp add: channels_ok_def)
    with False h [of c] sh show ?thesis
      by (auto simp: unresolved_def nth_append split: if_splits)
  qed
qed

lemma channels_ok_Enqueue:
  assumes "channels_ok s" "step (Call_Enqueue f) s = Some (e, s')"
  shows "channels_ok s'"
proof (cases "stop (pool s)")
  case True
  with assms show ?thesis by (simp add: Enqueue_def Let_def)
next
  case False
  show ?thesis
  proof (rule channels_ok_push_new [OF assms(1), of _ True])
    show "shared s' = shared s @ [\<lparr>result = None, has_future = True\<rparr>]"
      using assms(2) False by (auto simp: Enqueue_def Let_def split: if_splits)
    show "holders c s' = holders c s + (if c = length (shared s) then 1 else 0)" for c
      using assms(2) False
      by (auto simp: Enqueue_def Let_def holders_def emplace_def new_task_def split: if_splits)
  qed
qed

lemma channels_ok_TryEnqueue:
  assumes "channels_ok s" "step (Call_TryEnqueue f) s = Some (e, s')"
  shows "channels_ok s'"
proof (cases "stop (pool s) \<or> queue_full (pool s)")
  case True
  with assms show ?thesis by (auto simp: TryEnqueue_def Let_def split: if_splits)
next
  case False
  show ?thesis
  proof (rule channels_ok_push_new [OF assms(1), of _ False])
    show "shared s' = shared s @ [\<lparr>result = None, has_future = False\<rparr>]"
      using assms(2) False by (auto simp: TryEnqueue_def Let_def split: if_splits)
    show "holders c s' = holders c s + (if c = length (shared s) then 1 else 0)" for c
      using assms(2) False
      by (auto simp: TryEnqueue_def Let_def holders_def emplace_def new_task_def split: if_splits)
  qed
qed

lemma channels_ok_same:
  "channels_ok s \<Longrightarrow> (\<And>c. holders c s' = holders c s) \<Longrightarrow> shared s' = shared s \<Longrightarrow> channels_ok s'"
  by (simp add: channels_ok_def unresolved_def)

lemma channels_ok_Resume:
  assumes "channels_ok s" "step (Resume_Enqueue i b) s = Some (e, s')"
  shows "channels_ok s'"
proof -
  from assms(2) obtain t where i: "i < length (producers s)" and t: "producers s ! i = Some t"
    and s': "s' = s\<lparr>pool := emplace t (pool s), producers := (producers s)[i := None]\<rparr>"
    by (auto simp: Enqueue_after_wait_def split: if_splits option.splits)
  show ?thesis
  proof (rule channels_ok_same [OF assms(1)])
    show "shared s' = shared s" by (simp add: s')
    show "holders c s' = holders c s" for c
      using filter_update_count [OF i, of "awaits c" None] t
      by (auto simp: s' holders_def emplace_def split: if_splits)
  qed
qed

lemma channels_ok_GetNextTask:
  assumes "channels_ok s" "step (Worker_GetNextTask w) s = Some (e, s')"
  shows "channels_ok s'"
proof -
  from assms(2) have w: "w < length (workers s)" "workers s ! w = Waiting"
    by (auto split: if_splits)
  show ?thesis
  proof (cases "stop (pool s) \<and> tasks (pool s) = []")
    case True
    with assms(2) w have s': "s' = s\<lparr>workers := (workers s)[w := Terminated]\<rparr>"
      by (simp add: GetNextTask_def)
    show ?thesis
    proof (rule channels_ok_same [OF assms(1)])
      show "shared s' = shared s" by (simp add: s')
      show "holders c s' = holders c s" for c
        using filter_update_count [OF w(1), of "holds c" Terminated] w(2)
        by (simp add: s' holders_def)
    qed
  next
    case False
    with assms(2) w obtain t ts where q: "tasks (pool s) = t # ts"
      and s': "s' = s\<lparr>pool := (pool s)\<lparr>tasks := ts, activeTasks := activeTasks (pool s) + 1\<rparr>,
                     workers := (workers s)[w := Executing t]\<rparr>"
      by (cases "tasks (pool s)") (auto simp: GetNextTask_def split: if_splits)
    show ?thesis
    proof (rule channels_ok_same [OF assms(1)])
      show "shared s' = shared s" by (simp add: s')
      show "holders c s' = holders c s" for c
        using filter_update_count [OF w(1), of "holds c" "Executing t"] w(2) q
        by (auto simp: s' holders_def split: if_splits)
    qed
  qed
qed

lemma holder_unresolved:
  assumes "channels_ok s" "w < length (workers s)" "workers s ! w = Executing t"
  shows "unresolved (chan t) s"
proof -
  from assms(2,3) have "Executing t \<in> set (workers s)" by (metis nth_mem)
  then have "filter (holds (chan t)) (workers s) \<noteq> []"
    by (auto simp: filter_empty_conv intro!: bexI [of _ "Executing t"])
  then have "0 < holders (chan t) s" by (simp add: holders_def)
  with assms(1) show ?thesis
    by (auto simp: channels_ok_def dest!: spec [of _ "chan t"] split: if_splits)
qed

lemma channels_ok_Run:
  assumes "channels_ok s" "step (Worker_Run w) s = Some (e, s')"
  shows "channels_ok s'"
proof -
  from assms(2) obtain t where w: "w < length (workers s)" "workers s ! w = Executing t"
    by (auto split: if_splits worker.splits)
  from holder_unresolved [OF assms(1) w] have u: "unresolved (chan t) s" .
  with assms(2) w have s': "s' = s\<lparr>workers := (workers s)[w := Completing],
      shared := (shared s)[chan t := (shared s ! chan t)\<lparr>result := Some (body t)\<rparr>]\<rparr>"
    by (simp add: invoke_def unresolved_def)
  have h: "holders c s' + (if c = chan t then 1 else 0) = holders c s" for c
    using filter_update_count [OF w(1), of "holds c" Completing] w(2)
    by (auto simp: s' holders_def split: if_splits)
  show ?thesis
    unfolding channels_ok_def
  proof
    fix c
    from assms(1) have c: "holders c s \<le> (if unresolved c s then 1 else 0)"
      by (simp add: channels_ok_def)
    show "holders c s' \<le> (if unresolved c s' then 1 else 0)"
    proof (cases "c = chan t")
      case True
      with h [of c] c show ?thesis by (auto split: if_splits)
    next
      case False
      then have "unresolved c s' = unresolved c s"
        by (auto simp: s' unresolved_def)
      with h [of c] c False show ?thesis by simp
    qed
  qed
qed

lemma channels_ok_Notify:
  assumes "channels_ok s" "step (Worker_NotifyTaskCompletion w) s = Some (e, s')"
  shows "channels_ok s'"
proof -
  from assms(2) have w: "w < length (workers s)" "workers s ! w = Completing"
    by (auto split: if_splits)
  from assms(2) w obtain p' ws' where s': "s' = s\<lparr>pool := p', workers := (workers s)[w := Waiting],
      waiters := ws'\<rparr>" and p': "tasks p' = tasks (pool s)"
    by (auto simp: NotifyTaskCompletion_def Let_def)
  show ?thesis
  proof (rule channels_ok_same [OF assms(1)])
    show "shared s' = shared s"
      by (simp add: s')
    show "holders c s' = holders c s" for c
      using filter_update_count [OF w(1), of "holds c" Waiting] w(2)
      by (simp add: holders_def s' p')
  qed
qed

lemma channels_ok_rest:
  "channels_ok s \<Longrightarrow>
   a \<in> {Destructor_SignalThreadsToStop, Call_WaitForAllTasks, Waiter_Wake i, Waiter_Recheck i,
        Call_TryEnqueue_throwing x} \<Longrightarrow>
   step a s = Some (e, s') \<Longrightarrow> channels_ok s'"
  by (erule channels_ok_same)
     (auto simp: holders_def SignalThreadsToStop_def WaitForAllTasks_def TryEnqueue_def
      split: if_splits option.splits)

lemma channels_ok_step: "channels_ok s \<Longrightarrow> step a s = Some (e, s') \<Longrightarrow> channels_ok s'"
  by (cases a)
     (blast intro: channels_ok_Enqueue channels_ok_Resume channels_ok_TryEnqueue
        channels_ok_GetNextTask channels_ok_Run channels_ok_Notify channels_ok_rest)+

lemma channels_ok_run: "channels_ok s \<Longrightarrow> run as s = Some (es, s') \<Longrightarrow> channels_ok s'"
proof (induction as arbitrary: s es)
  case Nil
  then show ?case by simp
next
  case (Cons a as)
  then show ?case
    by (auto split: option.splits prod.splits dest: channels_ok_step)
qed

lemma step_keeps_future_flag:
  "step a s = Some (e, s') \<Longrightarrow> c < length (shared s) \<Longrightarrow>
     c < length (shared s') \<and> has_future (shared s' ! c) = has_future (shared s ! c)"
  by (cases a)
     (auto simp: Let_def Enqueue_def Enqueue_after_wait_def TryEnqueue_def
        GetNextTask_def NotifyTaskCompletion_def WaitForAllTasks_def invoke_def nth_append
        nth_list_update
      split: if_splits option.splits prod.splits sum.splits worker.splits
        enqueue_status.splits bool.splits)

lemma run_keeps_future_flag:
  "run as s = Some (es, s') \<Longrightarrow> c < length (shared s) \<Longrightarrow>
     c < length (shared s') \<and> has_future (shared s' ! c) = has_future (shared s ! c)"
proof (induction as arbitrary: s es)
  case Nil
  then show ?case by simp
next
  case (Cons a as)
  from Cons.prems(1) obtain e s1 es1 where a: "step a s = Some (e, s1)"
    and r: "run as s1 = Some (es1, s')"
    by (auto split: option.splits prod.splits)
  from step_keeps_future_flag [OF a Cons.prems(2)] Cons.IH [OF r]
  show ?case by simp
qed

lemma update_result:
  "r\<lparr>result := x\<rparr> = \<lparr>result = x, has_future = has_future r\<rparr>" for r :: shared_state
  by (cases r) simp

text \<open>
  C10.  \<open>TryEnqueue\<close> makes the packaged task without calling \<open>get_future()\<close> and returns
  only a boolean.  In every state reached from the construction of the pool: the shared
  state of a task accepted by \<open>TryEnqueue\<close> has no future, and has none in any later state;
  when a worker runs the task, what the callable did (the failure it raised, if it raised
  one) is stored in that shared state, \<open>task()\<close> returns normally, and the worker goes on
  to \<open>NotifyTaskCompletion\<close> and back to \<open>GetNextTask\<close>.
\<close>

theorem TryEnqueue_failure_is_swallowed:
  assumes reach: "run as (new_system threads cap) = Some (es, s)"
    and sub: "step (Call_TryEnqueue f) s = Some (Accepted t, s1)"
    and later: "run bs s1 = Some (es1, s2)"
    and exec: "w < length (workers s2)" "workers s2 ! w = Executing t"
  shows "t = \<lparr>chan = length (shared s), body = discard_value f\<rparr>
       \<and> shared s1 ! chan t = \<lparr>result = None, has_future = False\<rparr>
       \<and> (\<forall>cs es3 s3. run cs s1 = Some (es3, s3) \<longrightarrow> \<not> has_future (shared s3 ! chan t))
       \<and> step (Worker_Run w) s2
           = Some (Ran t,
                   s2\<lparr>workers := (workers s2)[w := Completing],
                      shared := (shared s2)[chan t := \<lparr>result = Some (discard_value f), has_future = False\<rparr>]\<rparr>)
       \<and> (\<exists>s4. step (Worker_NotifyTaskCompletion w)
                  (s2\<lparr>workers := (workers s2)[w := Completing],
                      shared := (shared s2)[chan t := \<lparr>result = Some (discard_value f), has_future = False\<rparr>]\<rparr>)
                = Some (Completed, s4)
              \<and> workers s4 ! w = Waiting)"
proof -
  from sub have t: "t = \<lparr>chan = length (shared s), body = discard_value f\<rparr>"
    and s1: "shared s1 = shared s @ [\<lparr>result = None, has_future = False\<rparr>]"
    by (auto simp: TryEnqueue_def Let_def new_task_def split: if_splits)
  from t s1 have c1: "chan t < length (shared s1)"
    and f1: "shared s1 ! chan t = \<lparr>result = None, has_future = False\<rparr>"
    by simp_all
  have never: "\<not> has_future (shared s3 ! chan t)" if "run cs s1 = Some (es3, s3)" for cs es3 s3
    using run_keeps_future_flag [OF that c1] f1 by simp
  from run_keeps_future_flag [OF later c1] f1
  have c2: "chan t < length (shared s2)" and f2: "\<not> has_future (shared s2 ! chan t)"
    by simp_all
  have "channels_ok s2"
    using channels_ok_run [OF channels_ok_step [OF channels_ok_run
          [OF channels_ok_new_system reach] sub] later] .
  from holder_unresolved [OF this exec] have u: "unresolved (chan t) s2" .
  have b: "body t = discard_value f" by (simp add: t)
  from u f2 have "(shared s2 ! chan t)\<lparr>result := Some (discard_value f)\<rparr> = \<lparr>result = Some (discard_value f), has_future = False\<rparr>"
    by (simp add: update_result)
  with u exec b have run: "step (Worker_Run w) s2
           = Some (Ran t,
                   s2\<lparr>workers := (workers s2)[w := Completing],
                      shared := (shared s2)[chan t := \<lparr>result = Some (discard_value f), has_future = False\<rparr>]\<rparr>)"
    by (simp add: invoke_def unresolved_def)
  have "\<exists>s4. step (Worker_NotifyTaskCompletion w)
                  (s2\<lparr>workers := (workers s2)[w := Completing],
                      shared := (shared s2)[chan t := \<lparr>result = Some (discard_value f), has_future = False\<rparr>]\<rparr>)
                = Some (Completed, s4)
              \<and> workers s4 ! w = Waiting"
    using exec(1) by (simp add: NotifyTaskCompletion_def Let_def)
  with t f1 never run show ?thesis by blast
qed

theorem TryEnqueue_failure_is_swallowed_witness:
  "run [] (new_system 1 4) = Some ([], new_system 1 4)
   \<and> step (Call_TryEnqueue (Failure ''boom'')) (new_system 1 4)
     = Some (Accepted \<lparr>chan = 0, body = Failure ''boom''\<rparr>,
             \<lparr>pool = \<lparr>tasks = [\<lparr>chan = 0, body = Failure ''boom''\<rparr>], stop = False,
                      activeTasks = 0, maxQueueSize = 4\<rparr>,
              workers = [Waiting], producers = [], waiters = [],
              shared = [\<lparr>result = None, has_future = False\<rparr>]\<rparr>)
   \<and> run [Worker_GetNextTask 0]
         \<lparr>pool = \<lparr>tasks = [\<lparr>chan = 0, body = Failure ''boom''\<rparr>], stop = False,
                  activeTasks = 0, maxQueueSize = 4\<rparr>,
          workers = [Waiting], producers = [], waiters = [],
          shared = [\<lparr>result = None, has_future = False\<rparr>]\<rparr>
     = Some ([Dequeued \<lparr>chan = 0, body = Failure ''boom''\<rparr>],
             \<lparr>pool = \<lparr>tasks = [], stop = False, activeTasks = 1, maxQueueSize = 4\<rparr>,
              workers = [Executing \<lparr>chan = 0, body = Failure ''boom''\<rparr>], producers = [],
              waiters = [], shared = [\<lparr>result = None, has_future = False\<rparr>]\<rparr>)
   \<and> step (Worker_Run 0)
         \<lparr>pool = \<lparr>tasks = [], stop = False, activeTasks = 1, maxQueueSize = 4\<rparr>,
          workers = [Executing \<lparr>chan = 0, body = Failure ''boom''\<rparr>], producers = [],
          waiters = [], shared = [\<lparr>result = None, has_future = False\<rparr>]\<rparr>
     = Some (Ran \<lparr>chan = 0, body = Failure ''boom''\<rparr>,
             \<lparr>pool = \<lparr>tasks = [], stop = False, activeTasks = 1, maxQueueSize = 4\<rparr>,
              workers = [Completing], producers = [], waiters = [],
              shared = [\<lparr>result = Some (Failure ''boom''), has_future = False\<rparr>]\<rparr>)"
proof -
  let ?t = "\<lparr>chan = 0, body = Failure ''boom''\<rparr>"
  let ?s1 = "\<lparr>pool = \<lparr>tasks = [?t], stop = False, activeTasks = 0, maxQueueSize = 4 :: 64 word\<rparr>,
              workers = [Waiting], producers = [], waiters = [],
              shared = [\<lparr>result = None, has_future = False\<rparr>]\<rparr>"
  let ?s2 = "\<lparr>pool = \<lparr>tasks = [], stop = False, activeTasks = 1, maxQueueSize = 4 :: 64 word\<rparr>,
              workers = [Executing ?t], producers = [], waiters = [],
              shared = [\<lparr>result = None, has_future = False\<rparr>]\<rparr>"
  have reach: "run [] (new_system 1 4) = Some ([], new_system 1 4)"
    by simp
  have sub: "step (Call_TryEnqueue (Failure ''boom'')) (new_system 1 4) = Some (Accepted ?t, ?s1)"
    by (simp add: new_system_def new_ThreadPool_def new_task_def TryEnqueue_def queue_full_def
        emplace_def Let_def)
  have later: "run [Worker_GetNextTask 0] ?s1 = Some ([Dequeued ?t], ?s2)"
    by (simp add: GetNextTask_def)
  have exec: "0 < length (workers ?s2)" "workers ?s2 ! 0 = Executing ?t"
    by simp_all
  from TryEnqueue_failure_is_swallowed [OF reach sub later exec]
  have "step (Worker_Run 0) ?s2
     = Some (Ran ?t,
             \<lparr>pool = \<lparr>tasks = [], stop = False, activeTasks = 1, maxQueueSize = 4\<rparr>,
              workers = [Completing], producers = [], waiters = [],
              shared = [\<lparr>result = Some (Failure ''boom''), has_future = False\<rparr>]\<rparr>)"
    by simp
  with reach sub later show ?thesis by blast
qed

subsection \<open>Shutdown\<close>

lemma run_append:
  "run (as @ bs) s =
     (case run as s of
        None \<Rightarrow> None
      | Some (es, s') \<Rightarrow>
          (case run bs s' of None \<Rightarrow> None | Some (es', s'') \<Rightarrow> Some (es @ es', s'')))"
  by (induction as arbitrary: s) (auto split: option.splits prod.splits)

lemma popped_append: "popped (es @ es') = popped es @ popped es'"
  by (induction es rule: popped.induct) simp_all

lemma executed_append: "executed (es @ es') = executed es @ executed es'"
  by (induction es rule: executed.induct) simp_all

lemma step_keeps_result:
  "step a s = Some (e, s') \<Longrightarrow> c < length (shared s) \<Longrightarrow> result (shared s ! c) = Some r \<Longrightarrow>
     c < length (shared s') \<and> result (shared s' ! c) = Some r"
  by (cases a)
     (auto simp: Let_def Enqueue_def Enqueue_after_wait_def TryEnqueue_def
        GetNextTask_def NotifyTaskCompletion_def WaitForAllTasks_def invoke_def nth_append
        nth_list_update
      split: if_splits option.splits prod.splits sum.splits worker.splits
        enqueue_status.splits bool.splits)

lemma run_keeps_result:
  "run as s = Some (es, s') \<Longrightarrow> c < length (shared s) \<Longrightarrow> result (shared s ! c) = Some r \<Longrightarrow>
     c < length (shared s') \<and> result (shared s' ! c) = Some r"
proof (induction as arbitrary: s es)
  case Nil
  then show ?case by simp
next
  case (Cons a as)
  from Cons.prems(1) obtain e s1 es1 where a: "step a s = Some (e, s1)"
    and r: "run as s1 = Some (es1, s')"
    by (auto split: option.splits prod.splits)
  from step_keeps_result [OF a Cons.prems(2,3)] Cons.IH [OF r]
  show ?case by simp
qed

lemma one_round:
  assumes ok: "channels_ok s" and st: "stop (pool s)" and q: "tasks (pool s) = t # ts"
    and w: "w < length (workers s)" "workers s ! w = Waiting"
  shows "\<exists>s'. run [Worker_GetNextTask w, Worker_Run w, Worker_NotifyTaskCompletion w] s
                = Some ([Dequeued t, Ran t, Completed], s')
           \<and> channels_ok s' \<and> stop (pool s') \<and> tasks (pool s') = ts
           \<and> length (workers s') = length (workers s) \<and> workers s' ! w = Waiting
           \<and> chan t < length (shared s') \<and> result (shared s' ! chan t) = Some (body t)"
proof -
  let ?s1 = "s\<lparr>pool := (pool s)\<lparr>tasks := ts, activeTasks := activeTasks (pool s) + 1\<rparr>,
               workers := (workers s)[w := Executing t]\<rparr>"
  have 1: "step (Worker_GetNextTask w) s = Some (Dequeued t, ?s1)"
    using st q w by (simp add: GetNextTask_def)
  from channels_ok_step [OF ok 1] have ok1: "channels_ok ?s1" .
  have w1: "w < length (workers ?s1)" "workers ?s1 ! w = Executing t"
    using w by simp_all
  from holder_unresolved [OF ok1 w1] have u: "chan t < length (shared s)"
    "result (shared s ! chan t) = None"
    by (simp_all add: unresolved_def)
  have "\<exists>s'. run [Worker_GetNextTask w, Worker_Run w, Worker_NotifyTaskCompletion w] s
                = Some ([Dequeued t, Ran t, Completed], s')
           \<and> stop (pool s') \<and> tasks (pool s') = ts
           \<and> length (workers s') = length (workers s) \<and> workers s' ! w = Waiting
           \<and> chan t < length (shared s') \<and> result (shared s' ! chan t) = Some (body t)"
    using st q w u by (simp add: GetNextTask_def invoke_def NotifyTaskCompletion_def Let_def)
  then obtain s' where r: "run [Worker_GetNextTask w, Worker_Run w, Worker_NotifyTaskCompletion w] s
                = Some ([Dequeued t, Ran t, Completed], s')"
    and rest: "stop (pool s')" "tasks (pool s') = ts"
      "length (workers s') = length (workers s)" "workers s' ! w = Waiting"
      "chan t < length (shared s')" "result (shared s' ! chan t) = Some (body t)"
    by blast
  from channels_ok_run [OF ok r] r rest show ?thesis by blast
qed

lemma drain_runs:
  "channels_ok s \<Longrightarrow> stop (pool s) \<Longrightarrow> w < length (workers s) \<Longrightarrow> workers s ! w = Waiting \<Longrightarrow>
   length (tasks (pool s)) = n \<Longrightarrow>
   \<exists>es s'. run (drain w n) s = Some (es, s')
     \<and> popped es = tasks (pool s) \<and> executed es = tasks (pool s)
     \<and> (\<forall>t\<in>set (tasks (pool s)). chan t < length (shared s')
           \<and> result (shared s' ! chan t) = Some (body t))
     \<and> tasks (pool s') = [] \<and> workers s' ! w = Terminated"
proof (induction n arbitrary: s)
  case 0
  then show ?case by (simp add: GetNextTask_def)
next
  case (Suc n)
  from Suc.prems(5) obtain t ts where q: "tasks (pool s) = t # ts" and n: "length ts = n"
    by (cases "tasks (pool s)") auto
  from one_round [OF Suc.prems(1,2) q Suc.prems(3,4)]
  obtain s3 where r: "run [Worker_GetNextTask w, Worker_Run w, Worker_NotifyTaskCompletion w] s
                = Some ([Dequeued t, Ran t, Completed], s3)"
    and ok3: "channels_ok s3" and st3: "stop (pool s3)" and q3: "tasks (pool s3) = ts"
    and w3: "w < length (workers s3)" "workers s3 ! w = Waiting"
    and res: "chan t < length (shared s3)" "result (shared s3 ! chan t) = Some (body t)"
    using Suc.prems(3) by auto
  from Suc.IH [OF ok3 st3 w3] q3 n
  obtain es s' where d: "run (drain w n) s3 = Some (es, s')"
    and p: "popped es = ts" and x: "executed es = ts"
    and rs: "\<forall>t\<in>set ts. chan t < length (shared s') \<and> result (shared s' ! chan t) = Some (body t)"
    and fin: "tasks (pool s') = []" "workers s' ! w = Terminated"
    by auto
  have "run (drain w (Suc n)) s = Some ([Dequeued t, Ran t, Completed] @ es, s')"
    using r d by (simp only: drain.simps run_append) simp
  moreover from run_keeps_result [OF d res]
  have "chan t < length (shared s') \<and> result (shared s' ! chan t) = Some (body t)" .
  ultimately show ?case
    using p x rs fin q by (auto simp: popped_append executed_append)
qed

text \<open>
  What the code does after \<open>stop_\<close> is set.  \<open>GetNextTask\<close> returns the empty function only
  when \<open>stop_\<close> is true and the queue is empty.  In every state reached from the construction
  of the pool in which \<open>stop_\<close> is true and a worker \<open>w\<close> is about to call \<open>GetNextTask\<close>, the
  schedule in which \<open>w\<close> runs alone dequeues and executes every queued task, in queue order,
  each shared state then holds the result of its task, and only then does \<open>w\<close> receive the
  empty function and terminate.
\<close>

lemma stopping_worker_drains_queue:
  assumes "run as (new_system threads cap) = Some (es0, s)"
    and "stop (pool s)" and "w < length (workers s)" and "workers s ! w = Waiting"
  shows "(\<exists>es s'. run (drain w (length (tasks (pool s)))) s = Some (es, s')
            \<and> popped es = tasks (pool s) \<and> executed es = tasks (pool s)
            \<and> (\<forall>t\<in>set (tasks (pool s)). result (shared s' ! chan t) = Some (body t))
            \<and> tasks (pool s') = [] \<and> workers s' ! w = Terminated)
       \<and> (\<forall>v s'. step (Worker_GetNextTask v) s = Some (Sentinel, s') \<longrightarrow> tasks (pool s) = [])"
proof -
  have ok: "channels_ok s"
    using channels_ok_run [OF channels_ok_new_system assms(1)] .
  from drain_runs [OF ok assms(2-4) refl]
  have "\<exists>es s'. run (drain w (length (tasks (pool s)))) s = Some (es, s')
            \<and> popped es = tasks (pool s) \<and> executed es = tasks (pool s)
            \<and> (\<forall>t\<in>set (tasks (pool s)). result (shared s' ! chan t) = Some (body t))
            \<and> tasks (pool s') = [] \<and> workers s' ! w = Terminated"
    by blast
  moreover have "\<forall>v s'. step (Worker_GetNextTask v) s = Some (Sentinel, s') \<longrightarrow> tasks (pool s) = []"
    by (auto simp: GetNextTask_def split: if_splits)
  ultimately show ?thesis by blast
qed

text \<open>
  C1.  The claim: tasks that are in the queue when a worker sees \<open>stop_\<close> true are never
  executed, are discarded, and their futures stay unresolved; in particular, of five tasks
  that are queued with none executing when shutdown begins, none executes.  The
  documentation in the code says the same: "Any unprocessed tasks will not be executed"
  (destructor, ThreadPool.h), the workers "exit when they next check for work" and each
  is joined once it has finished "its current task" (destructor, ThreadPool.cpp), and
  \<open>SignalThreadsToStop\<close> makes them leave their loop "once they check the condition
  variable".  The code does not do it.  A pool of one worker and capacity ten is
  constructed, five tasks are submitted with \<open>Enqueue\<close>, and the destructor sets \<open>stop_\<close>
  while all five are queued and none is executing.  The worker then dequeues and runs every
  one of the five; each shared state holds its result; on the next call, with the queue
  empty, the worker receives the empty function and terminates.
\<close>

theorem shutdown_scenario_C:
  "run [Call_Enqueue (Value 1), Call_Enqueue (Value 2), Call_Enqueue (Value 3),
        Call_Enqueue (Value 4), Call_Enqueue (Value 5),
        Destructor_SignalThreadsToStop,
        Worker_GetNextTask 0, Worker_Run 0, Worker_NotifyTaskCompletion 0,
        Worker_GetNextTask 0, Worker_Run 0, Worker_NotifyTaskCompletion 0,
        Worker_GetNextTask 0, Worker_Run 0, Worker_NotifyTaskCompletion 0,
        Worker_GetNextTask 0, Worker_Run 0, Worker_NotifyTaskCompletion 0,
        Worker_GetNextTask 0, Worker_Run 0, Worker_NotifyTaskCompletion 0,
        Worker_GetNextTask 0]
     (new_system 1 10)
   = Some ([Future \<lparr>chan = 0, body = Value 1\<rparr>, Future \<lparr>chan = 1, body = Value 2\<rparr>,
            Future \<lparr>chan = 2, body = Value 3\<rparr>, Future \<lparr>chan = 3, body = Value 4\<rparr>,
            Future \<lparr>chan = 4, body = Value 5\<rparr>,
            StopSignalled,
            Dequeued \<lparr>chan = 0, body = Value 1\<rparr>, Ran \<lparr>chan = 0, body = Value 1\<rparr>, Completed,
            Dequeued \<lparr>chan = 1, body = Value 2\<rparr>, Ran \<lparr>chan = 1, body = Value 2\<rparr>, Completed,
            Dequeued \<lparr>chan = 2, body = Value 3\<rparr>, Ran \<lparr>chan = 2, body = Value 3\<rparr>, Completed,
            Dequeued \<lparr>chan = 3, body = Value 4\<rparr>, Ran \<lparr>chan = 3, body = Value 4\<rparr>, Completed,
            Dequeued \<lparr>chan = 4, body = Value 5\<rparr>, Ran \<lparr>chan = 4, body = Value 5\<rparr>, Completed,
            Sentinel],
           \<lparr>pool = \<lparr>tasks = [], stop = True, activeTasks = 0, maxQueueSize = 10\<rparr>,
            workers = [Terminated], producers = [], waiters = [],
            shared = [\<lparr>result = Some (Value 1), has_future = True\<rparr>,
                      \<lparr>result = Some (Value 2), has_future = True\<rparr>,
                      \<lparr>result = Some (Value 3), has_future = True\<rparr>,
                      \<lparr>result = Some (Value 4), has_future = True\<rparr>,
                      \<lparr>result = Some (Value 5), has_future = True\<rparr>]\<rparr>)
   \<and> executed
        [Future \<lparr>chan = 0, body = Value 1\<rparr>, Future \<lparr>chan = 1, body = Value 2\<rparr>,
         Future \<lparr>chan = 2, body = Value 3\<rparr>, Future \<lparr>chan = 3, body = Value 4\<rparr>,
         Future \<lparr>chan = 4, body = Value 5\<rparr>,
         StopSignalled,
         Dequeued \<lparr>chan = 0, body = Value 1\<rparr>, Ran \<lparr>chan = 0, body = Value 1\<rparr>, Completed,
         Dequeued \<lparr>chan = 1, body = Value 2\<rparr>, Ran \<lparr>chan = 1, body = Value 2\<rparr>, Completed,
         Dequeued \<lparr>chan = 2, body = Value 3\<rparr>, Ran \<lparr>chan = 2, body = Value 3\<rparr>, Completed,
         Dequeued \<lparr>chan = 3, body = Value 4\<rparr>, Ran \<lparr>chan = 3, body = Value 4\<rparr>, Completed,
         Dequeued \<lparr>chan = 4, body = Value 5\<rparr>, Ran \<lparr>chan = 4, body = Value 5\<rparr>, Completed,
         Sentinel]
     = [\<lparr>chan = 0, body = Value 1\<rparr>, \<lparr>chan = 1, body = Value 2\<rparr>, \<lparr>chan = 2, body = Value 3\<rparr>,
        \<lparr>chan = 3, body = Value 4\<rparr>, \<lparr>chan = 4, body = Value 5\<rparr>]"
  by (simp add: new_system_def new_ThreadPool_def new_task_def Enqueue_def queue_full_def
      emplace_def SignalThreadsToStop_def GetNextTask_def invoke_def NotifyTaskCompletion_def
      Let_def)

end
